theory Spec2Isabelle
  imports Main
begin

section \<open>The crossposting bot of images\_of/bot.py\<close>

text \<open>
  The bot reads the stream of new submissions, filters each one (\<open>Bot.check\<close>), and
  submits it again to every destination subreddit that accepts it (\<open>Bot.crosspost\<close>),
  remembering the last 50 (url, destination) pairs in a bounded deque.

  What the module reaches through PRAW, the clock and the logging module is made
  explicit: the calls the bot makes are recorded in the state, and the answers it gets
  are read from an environment that may answer every call differently.
\<close>

subsection \<open>Strings\<close>

text \<open>
  A Python \<open>str\<close> is modelled as a list of characters with code points below 256.
  On these, \<open>str.lower\<close> moves \<open>A..Z\<close> and the Latin-1 capitals (192..222 but 215)
  up by 32, \<open>str.isspace\<close> holds of 9..13, 28..32, 133 and 160, and
  \<open>str.splitlines\<close> breaks at 10..13, 28..30 and 133, a carriage return followed by a
  line feed counting once.
\<close>

definition lower_char :: "char \<Rightarrow> char" where
  "lower_char c =
     (let n = (of_char c :: nat)
      in if (65 \<le> n \<and> n \<le> 90) \<or> (192 \<le> n \<and> n \<le> 222 \<and> n \<noteq> 215)
         then char_of (n + 32) else c)"

definition lower :: "string \<Rightarrow> string" where
  "lower s = map lower_char s"

definition isspace :: "char \<Rightarrow> bool" where
  "isspace c =
     (let n = (of_char c :: nat)
      in (9 \<le> n \<and> n \<le> 13) \<or> (28 \<le> n \<and> n \<le> 32) \<or> n = 133 \<or> n = 160)"

definition strip :: "string \<Rightarrow> string" where
  "strip s = rev (dropWhile isspace (rev (dropWhile isspace s)))"

definition linebreak :: "char \<Rightarrow> bool" where
  "linebreak c =
     (let n = (of_char c :: nat)
      in (10 \<le> n \<and> n \<le> 13) \<or> (28 \<le> n \<and> n \<le> 30) \<or> n = 133)"

text \<open>
  \<open>splitlines_from cur s\<close> splits \<open>s\<close>, with \<open>cur\<close> the characters of the line being
  read, last character first. A line is closed at each break; what is left at the end is
  a line only when it has a character.
\<close>

fun splitlines_from :: "string \<Rightarrow> string \<Rightarrow> string list" where
  "splitlines_from cur [] = (if cur = [] then [] else [rev cur])"
| "splitlines_from cur (c # cs) =
     (if linebreak c then
        (case cs of
           d # ds \<Rightarrow>
             if c = CHR 0x0D \<and> d = CHR 0x0A
             then rev cur # splitlines_from [] ds
             else rev cur # splitlines_from [] cs
         | [] \<Rightarrow> rev cur # splitlines_from [] cs)
      else splitlines_from (c # cur) cs)"

definition splitlines :: "string \<Rightarrow> string list" where
  "splitlines s = splitlines_from [] s"

subsection \<open>Items, destinations and the bot\<close>

text \<open>\<open>post.author\<close>: a redditor, with the time its account was created, in microseconds
  since the epoch (what \<open>datetime.utcfromtimestamp(created_utc)\<close> holds).\<close>

record redditor =
  name :: string
  created_utc :: int

text \<open>\<open>post.subreddit\<close>: the subreddit the item was posted in.\<close>

record source_subreddit =
  display_name :: string

text \<open>A submission of the stream. \<open>age_verified\<close> says whether the attribute of that name
  is set on the object (\<open>hasattr(post, 'age_verified')\<close>).\<close>

record post =
  title :: string
  url :: string
  domain :: string
  permalink :: string
  over_18 :: bool
  author :: redditor
  subreddit :: source_subreddit
  age_verified :: bool

text \<open>A destination, an object of \<open>images_of.subreddit.Subreddit\<close>. The class is not part
  of bot.py: its \<open>check\<close> method is taken as a parameter.\<close>

record Subreddit =
  sub_name :: string
  sub_check :: "post \<Rightarrow> bool"

text \<open>The part of \<open>images_of.settings\<close> that the per-item code reads.\<close>

record settings =
  NSFW_OK :: bool

text \<open>The fields of a \<open>Bot\<close> that stay fixed after \<open>__init__\<close>. \<open>ext_re s\<close> and
  \<open>domain_re s\<close> say whether \<open>self.ext_re.search(s)\<close> and \<open>self.domain_re.search(s)\<close>
  find a match: the patterns are compiled from lists of the settings module.\<close>

record bot =
  should_post :: bool
  blacklist_users :: "string set"
  blacklist_subs :: "string set"
  subreddits :: "Subreddit list"
  ext_re :: "string \<Rightarrow> bool"
  domain_re :: "string \<Rightarrow> bool"

subsection \<open>Exceptions, log records, requests\<close>

text \<open>
  The exception classes the module names, each standing for its instances and those of
  its subclasses, but \<open>APIException\<close>, which stands for the instances of
  \<open>praw.errors.APIException\<close> that are not an \<open>AlreadySubmitted\<close> (its subclass).
  \<open>OtherException\<close> is any exception no handler of the module catches.
\<close>

datatype exn =
    AlreadySubmitted
  | APIException
  | HTTPException
  | ConnectionError
  | NameError string
  | OtherException

datatype level = DEBUG | INFO | WARNING

text \<open>One constructor for each logging call of the per-item code and the run loop, with the
  values formatted into the message.\<close>

datatype message =
    Already_posted string string
  | Added_to_recent_posts "string \<times> string" nat
  | X_Posting string string
  | Commenting string
  | Already_submitted
  | Exception_text exn
  | Reddit_is_down
  | Connection_failed
  | Stream_ended

text \<open>The calls made on the Reddit session: \<open>r.submit(name, title, url=...)\<close> and
  \<open>xpost.add_comment(comment)\<close>, the submission named by the number of the request that
  created it.\<close>

datatype request =
    Submit string string string
  | Add_comment nat string

text \<open>
  The environment: \<open>utcnow w i\<close> is what the \<open>i\<close>-th call of \<open>datetime.utcnow()\<close>
  returns (microseconds since the epoch), and \<open>reddit w i\<close> is how the \<open>i\<close>-th request
  ends: \<open>None\<close> when it returns, \<open>Some e\<close> when it raises \<open>e\<close>.
\<close>

record env =
  utcnow :: "nat \<Rightarrow> int"
  reddit :: "nat \<Rightarrow> exn option"

text \<open>The state that changes: the deque \<open>self.recent_posts\<close> (oldest entry first), the
  logging calls and requests made so far, the number of clock readings, and the seconds
  slept.\<close>

record state =
  recent_posts :: "(string \<times> string) list"
  records :: "(level \<times> message) list"
  requests :: "request list"
  clock_reads :: nat
  slept :: "nat list"

definition logging :: "level \<Rightarrow> message \<Rightarrow> state \<Rightarrow> state" where
  "logging l m s = s\<lparr>records := records s @ [(l, m)]\<rparr>"

subsection \<open>The recency deque\<close>

definition maxlen :: nat where
  "maxlen = 50"

text \<open>\<open>deque.append\<close> on a deque with a \<open>maxlen\<close>: the entry is added on the right, and
  when the deque is then longer than \<open>maxlen\<close> the leftmost entry is dropped.\<close>

definition deque_append :: "'a list \<Rightarrow> 'a \<Rightarrow> 'a list" where
  "deque_append d x = (let d' = d @ [x] in if length d' > maxlen then tl d' else d')"

text \<open>A new \<open>Bot\<close> starts with an empty deque.\<close>

definition init_state :: state where
  "init_state = \<lparr>recent_posts = [], records = [], requests = [], clock_reads = 0, slept = []\<rparr>"

subsection \<open>Bot.\_read\_blacklist and Bot.check\<close>

text \<open>\<open>_read_blacklist\<close>, from the text of the wiki page on.\<close>

definition read_blacklist :: "string \<Rightarrow> string set" where
  "read_blacklist content =
     set (map (\<lambda>line. drop 3 (lower (strip line)))
            (filter (\<lambda>line. line \<noteq> []) (splitlines content)))"

definition check :: "settings \<Rightarrow> bot \<Rightarrow> post \<Rightarrow> bool" where
  "check st b p =
     (if \<not> NSFW_OK st \<and> over_18 p then False
      else let user = lower (name (author p)) in
        if user \<in> blacklist_users b then False
        else let sub = lower (display_name (subreddit p)) in
          if sub \<in> blacklist_subs b then False
          else if domain_re b (domain p) then True
          else if ext_re b (url p) then True
          else False)"

subsection \<open>Bot.crosspost\<close>

definition submit :: "env \<Rightarrow> string \<Rightarrow> string \<Rightarrow> string \<Rightarrow> state \<Rightarrow> (exn + nat) \<times> state" where
  "submit w n t u s =
     (let i = length (requests s); s' = s\<lparr>requests := requests s @ [Submit n t u]\<rparr>
      in case reddit w i of None \<Rightarrow> (Inr i, s') | Some e \<Rightarrow> (Inl e, s'))"

definition add_comment :: "env \<Rightarrow> nat \<Rightarrow> string \<Rightarrow> state \<Rightarrow> exn option \<times> state" where
  "add_comment w xpost c s =
     (let i = length (requests s); s' = s\<lparr>requests := requests s @ [Add_comment xpost c]\<rparr>
      in (reddit w i, s'))"

text \<open>The body of the \<open>try\<close> statement. In a dry run (\<open>should_post\<close> false) nothing is
  requested and \<open>xpost\<close> is never read.\<close>

definition try_forward :: "bot \<Rightarrow> env \<Rightarrow> post \<Rightarrow> Subreddit \<Rightarrow> string \<Rightarrow> state \<Rightarrow> exn option \<times> state" where
  "try_forward b w p sub comment s =
     (let s1 = logging INFO (X_Posting (sub_name sub) (title p)) s in
      if should_post b then
        (case submit w (sub_name sub) (title p) (url p) s1 of
           (Inl e, s2) \<Rightarrow> (Some e, s2)
         | (Inr xpost, s2) \<Rightarrow>
             add_comment w xpost comment (logging DEBUG (Commenting comment) s2))
      else (None, logging DEBUG (Commenting comment) s1))"

text \<open>The \<open>except\<close> clauses, in their order: \<open>AlreadySubmitted\<close>, then \<open>APIException\<close>;
  any other exception leaves \<open>crosspost\<close>.\<close>

definition except_forward :: "exn option \<times> state \<Rightarrow> exn option \<times> state" where
  "except_forward r =
     (case r of
        (None, s) \<Rightarrow> (None, s)
      | (Some AlreadySubmitted, s) \<Rightarrow> (None, logging INFO Already_submitted s)
      | (Some APIException, s) \<Rightarrow> (None, logging WARNING (Exception_text APIException) s)
      | (Some e, s) \<Rightarrow> (Some e, s))"

text \<open>The text of the comment: \<open>str\<close> of a redditor is its name, and \<open>str\<close> of a
  subreddit its display name.\<close>

definition comment :: "post \<Rightarrow> string" where
  "comment p = ''[Original post]('' @ permalink p @ '') by /u/'' @ name (author p)
                 @ '' in /r/'' @ display_name (subreddit p)"

definition crosspost :: "bot \<Rightarrow> env \<Rightarrow> post \<Rightarrow> Subreddit \<Rightarrow> state \<Rightarrow> exn option \<times> state" where
  "crosspost b w p sub s =
     (let log_entry = (url p, sub_name sub)
      in if log_entry \<in> set (recent_posts s) then
           (None, logging INFO (Already_posted (title p) (sub_name sub)) s)
         else
           let s1 = s\<lparr>recent_posts := deque_append (recent_posts s) log_entry\<rparr>;
               s2 = logging DEBUG (Added_to_recent_posts log_entry (length (recent_posts s1))) s1
           in except_forward (try_forward b w p sub (comment p) s2))"

subsection \<open>Bot.verify\_age\<close>

text \<open>\<open>timedelta.days\<close> of a difference of that many microseconds: timedelta keeps the
  seconds and microseconds non-negative, so the days are rounded down.\<close>

definition timedelta_days :: "int \<Rightarrow> int" where
  "timedelta_days us = us div 86400000000"

definition read_clock :: "env \<Rightarrow> state \<Rightarrow> int \<times> state" where
  "read_clock w s = (utcnow w (clock_reads s), s\<lparr>clock_reads := clock_reads s + 1\<rparr>)"

text \<open>\<open>verify_age\<close> returns its answer, and the post, on which it may have set the
  attribute.\<close>

definition verify_age :: "env \<Rightarrow> post \<Rightarrow> state \<Rightarrow> bool \<times> post \<times> state" where
  "verify_age w p s =
     (if age_verified p then (True, p, s)
      else
        let created = created_utc (author p);
            (now, s') = read_clock w s;
            age = timedelta_days (now - created)
        in if age > 2 then (True, p\<lparr>age_verified := True\<rparr>, s') else (False, p, s'))"

subsection \<open>Bot.\_do\_post\<close>

text \<open>The loop over \<open>self.subreddits\<close>: \<open>return\<close> when the age check fails, and an
  exception that leaves \<open>crosspost\<close> ends the loop too.\<close>

fun for_subreddits :: "bot \<Rightarrow> env \<Rightarrow> Subreddit list \<Rightarrow> post \<Rightarrow> state \<Rightarrow> exn option \<times> state" where
  "for_subreddits b w [] p s = (None, s)"
| "for_subreddits b w (sub # subs) p s =
     (if sub_check sub p then
        (case verify_age w p s of
           (False, p', s') \<Rightarrow> (None, s')
         | (True, p', s') \<Rightarrow>
             (case crosspost b w p' sub s' of
                (Some e, s'') \<Rightarrow> (Some e, s'')
              | (None, s'') \<Rightarrow> for_subreddits b w subs p' s''))
      else for_subreddits b w subs p s)"

definition do_post :: "settings \<Rightarrow> bot \<Rightarrow> env \<Rightarrow> post \<Rightarrow> state \<Rightarrow> exn option \<times> state" where
  "do_post st b w p s =
     (if \<not> check st b p then (None, s) else for_subreddits b w (subreddits b) p s)"

subsection \<open>Bot.run\<close>

definition RETRY_MINUTES :: nat where
  "RETRY_MINUTES = 3"

text \<open>The names bound in the module's namespace when \<open>run\<close> is called: what bot.py
  imports, and what it defines at top level.\<close>

definition module_globals :: "string list" where
  "module_globals =
     [''logging'', ''re'', ''deque'', ''datetime'', ''requests'', ''submission_stream'',
      ''AlreadySubmitted'', ''APIException'', ''HTTPException'', ''settings'', ''Subreddit'',
      ''RETRY_MINUTES'', ''Bot'']"

text \<open>The call \<open>sleep(secs)\<close> in \<open>run\<close>. \<open>sleep\<close> is no local name and no builtin of
  Python, so the call looks it up in the module's namespace, and raises \<open>NameError\<close>
  when it is not bound there.\<close>

definition sleep :: "nat \<Rightarrow> state \<Rightarrow> exn option \<times> state" where
  "sleep secs s =
     (if ''sleep'' \<in> set module_globals then (None, s\<lparr>slept := slept s @ [secs]\<rparr>)
      else (Some (NameError ''sleep''), s))"

text \<open>What pulling the next item from the stream does: it yields a post, raises, or ends
  the iteration.\<close>

datatype pull = Yield post | Raise exn | StopIteration

text \<open>
  \<open>run\<close>, on the pulls the stream answers with, in their order. The loop of the source
  never returns, so the result is about the pulls given: \<open>Some e\<close> when \<open>e\<close> has left
  \<open>run\<close>, and \<open>None\<close> when the loop has consumed every pull given and waits for the
  next one. An exception raised inside \<open>_do_post\<close> reaches the same handlers as one
  raised by the stream.
\<close>

fun run :: "settings \<Rightarrow> bot \<Rightarrow> env \<Rightarrow> pull list \<Rightarrow> state \<Rightarrow> exn option \<times> state" where
  "run st b w [] s = (None, s)"
| "run st b w (pl # pls) s =
     (let (raised, s0) =
            (case pl of
               Yield p \<Rightarrow> do_post st b w p s
             | Raise e \<Rightarrow> (Some e, s)
             | StopIteration \<Rightarrow> (None, logging WARNING Stream_ended s))
      in case raised of
           None \<Rightarrow> run st b w pls s0
         | Some HTTPException \<Rightarrow>
             (let s1 = logging WARNING Reddit_is_down s0;
                  s2 = logging DEBUG (Exception_text HTTPException) s1
              in case sleep (60 * RETRY_MINUTES) s2 of
                   (Some e, s3) \<Rightarrow> (Some e, s3)
                 | (None, s3) \<Rightarrow> run st b w pls s3)
         | Some ConnectionError \<Rightarrow> run st b w pls (logging WARNING Connection_failed s0)
         | Some e \<Rightarrow> (Some e, s0))"

subsection \<open>Observations on runs\<close>

text \<open>These are not functions of the source: they name what the theorems below observe.
  \<open>forwards k s\<close> counts the submissions of the pair \<open>k\<close> = (url, destination) among the
  requests made; \<open>crossposts\<close> is the state after a sequence of \<open>crosspost\<close> calls,
  whether they return or raise; \<open>stays_cached\<close> says that the pair is in the deque at
  each of these calls.\<close>

definition log_entry :: "post \<times> Subreddit \<Rightarrow> string \<times> string" where
  "log_entry c = (url (fst c), sub_name (snd c))"

fun is_forward :: "string \<times> string \<Rightarrow> request \<Rightarrow> bool" where
  "is_forward k (Submit n t u) = ((u, n) = k)"
| "is_forward k (Add_comment x c) = False"

definition forwards :: "string \<times> string \<Rightarrow> state \<Rightarrow> nat" where
  "forwards k s = length (filter (is_forward k) (requests s))"

fun crossposts :: "bot \<Rightarrow> env \<Rightarrow> (post \<times> Subreddit) list \<Rightarrow> state \<Rightarrow> state" where
  "crossposts b w [] s = s"
| "crossposts b w (c # cs) s = crossposts b w cs (snd (crosspost b w (fst c) (snd c) s))"

fun stays_cached :: "bot \<Rightarrow> env \<Rightarrow> string \<times> string \<Rightarrow> (post \<times> Subreddit) list \<Rightarrow> state \<Rightarrow> bool" where
  "stays_cached b w k [] s = True"
| "stays_cached b w k (c # cs) s =
     (k \<in> set (recent_posts s) \<and> stays_cached b w k cs (snd (crosspost b w (fst c) (snd c) s)))"

subsection \<open>Example inputs\<close>

definition demo_settings :: settings where
  "demo_settings = \<lparr>NSFW_OK = False\<rparr>"

definition demo_post :: post where
  "demo_post =
     \<lparr>title = ''A cat'', url = ''http://example.org/cat.jpg'', domain = ''example.org'',
      permalink = ''/r/pics/comments/1/a_cat/'', over_18 = False,
      author = \<lparr>name = ''Foo'', created_utc = 0\<rparr>,
      subreddit = \<lparr>display_name = ''Pics''\<rparr>, age_verified = False\<rparr>"

definition demo_sub :: "string \<Rightarrow> Subreddit" where
  "demo_sub n = \<lparr>sub_name = n, sub_check = (\<lambda>p. True)\<rparr>"

text \<open>A bot with two destinations, whose extension pattern is \<open>(.jpg)$\<close> and whose domain
  pattern is \<open>^(i.imgur.com)$\<close>, read as plain text.\<close>

definition demo_bot :: bot where
  "demo_bot =
     \<lparr>should_post = True, blacklist_users = {''spammer''}, blacklist_subs = {''ads''},
      subreddits = [demo_sub ''ImagesOfCats'', demo_sub ''ImagesOfPets''],
      ext_re = (\<lambda>u. drop (length u - 4) (lower u) = ''.jpg''),
      domain_re = (\<lambda>d. lower d = ''i.imgur.com'')\<rparr>"

text \<open>A destination that accepts nothing.\<close>

definition picky_sub :: Subreddit where
  "picky_sub = \<lparr>sub_name = ''ImagesOfDogs'', sub_check = (\<lambda>p. False)\<rparr>"

text \<open>An environment whose clock stands still and whose every request ends the same.\<close>

definition demo_env :: "int \<Rightarrow> exn option \<Rightarrow> env" where
  "demo_env now answer = \<lparr>utcnow = (\<lambda>i. now), reddit = (\<lambda>i. answer)\<rparr>"

text \<open>Two destinations by name, a post that already carries the mark, and 51 calls of
  \<open>crosspost\<close> with 51 different urls.\<close>

definition demo_cats :: Subreddit where
  "demo_cats = demo_sub ''ImagesOfCats''"

definition demo_pets :: Subreddit where
  "demo_pets = demo_sub ''ImagesOfPets''"

definition verified_post :: post where
  "verified_post = demo_post\<lparr>age_verified := True\<rparr>"

definition demo_calls :: "(post \<times> Subreddit) list" where
  "demo_calls =
     map (\<lambda>i. (demo_post\<lparr>url := replicate i (CHR ''x'')\<rparr>, demo_sub ''ImagesOfCats'')) [0..<51]"

section \<open>The run loop\<close>

lemma run_ConnectionError:
  "run st b w (Raise ConnectionError # pls) s =
     run st b w pls (logging WARNING Connection_failed s)"
  by simp

lemma run_StopIteration:
  "run st b w (StopIteration # pls) s = run st b w pls (logging WARNING Stream_ended s)"
  by simp

text \<open>
  C1. When the stream raises \<open>HTTPException\<close>, the handler logs its two records and calls
  \<open>sleep\<close>, a name bot.py never binds: the call raises \<open>NameError\<close>, which leaves
  \<open>run\<close>. Nothing is slept and no later pull is consumed, whatever the state and the
  pulls that would follow.
\<close>

theorem run_HTTPException_escapes:
  "run st b w (Raise HTTPException # pls) s =
     (Some (NameError ''sleep''),
      logging DEBUG (Exception_text HTTPException) (logging WARNING Reddit_is_down s))"
  by (simp add: sleep_def module_globals_def)

section \<open>The global filter\<close>

text \<open>
  C4. An item the global filter rejects (adult content while the policy disallows it, a
  blacklisted author, a blacklisted source subreddit, or neither pattern matching) makes
  \<open>check\<close> false, and \<open>_do_post\<close> returns with the state as it was: no request, no
  log record, no entry in the deque.
\<close>

theorem rejected_item_is_never_forwarded:
  assumes "(\<not> NSFW_OK st \<and> over_18 p) \<or> lower (name (author p)) \<in> blacklist_users b \<or>
           lower (display_name (subreddit p)) \<in> blacklist_subs b \<or>
           (\<not> domain_re b (domain p) \<and> \<not> ext_re b (url p))"
  shows "\<not> check st b p \<and> do_post st b w p s = (None, s)"
  using assms by (auto simp: check_def do_post_def Let_def)

theorem rejected_item_is_never_forwarded_witness:
  "lower (name (author (demo_post\<lparr>author := \<lparr>name = ''SPAMMER'', created_utc = 0\<rparr>\<rparr>)))
     \<in> blacklist_users demo_bot \<and>
   \<not> check demo_settings demo_bot (demo_post\<lparr>author := \<lparr>name = ''SPAMMER'', created_utc = 0\<rparr>\<rparr>) \<and>
   do_post demo_settings demo_bot (demo_env 0 None)
     (demo_post\<lparr>author := \<lparr>name = ''SPAMMER'', created_utc = 0\<rparr>\<rparr>) init_state
     = (None, init_state)"
proof -
  have h: "lower (name (author (demo_post\<lparr>author := \<lparr>name = ''SPAMMER'', created_utc = 0\<rparr>\<rparr>)))
     \<in> blacklist_users demo_bot"
    by code_simp
  then show ?thesis
    using rejected_item_is_never_forwarded
      [of demo_settings "demo_post\<lparr>author := \<lparr>name = ''SPAMMER'', created_utc = 0\<rparr>\<rparr>"
          demo_bot "demo_env 0 None" init_state]
    by blast
qed

text \<open>
  C7. The two patterns are alternatives: an item that passes the adult-content and
  blacklist tests and whose URL matches the extension pattern is accepted, whether or not
  its domain matches the domain pattern.
\<close>

theorem extension_match_alone_is_accepted:
  assumes "\<not> (\<not> NSFW_OK st \<and> over_18 p)"
    and "lower (name (author p)) \<notin> blacklist_users b"
    and "lower (display_name (subreddit p)) \<notin> blacklist_subs b"
    and "ext_re b (url p)"
  shows "check st b p"
  using assms by (auto simp: check_def Let_def)

theorem extension_match_alone_is_accepted_witness:
  "\<not> domain_re demo_bot (domain demo_post) \<and> ext_re demo_bot (url demo_post) \<and>
   check demo_settings demo_bot demo_post"
proof -
  have 1: "\<not> (\<not> NSFW_OK demo_settings \<and> over_18 demo_post)"
    by (simp add: demo_post_def)
  have 2: "lower (name (author demo_post)) \<notin> blacklist_users demo_bot"
    by code_simp
  have 3: "lower (display_name (subreddit demo_post)) \<notin> blacklist_subs demo_bot"
    by code_simp
  have 4: "ext_re demo_bot (url demo_post)"
    by code_simp
  have 5: "\<not> domain_re demo_bot (domain demo_post)"
    by code_simp
  show ?thesis
    using 4 5 extension_match_alone_is_accepted [OF 1 2 3 4] by simp
qed

section \<open>What a call of crosspost changes\<close>

lemma crosspost_cached:
  "(url p, sub_name sub) \<in> set (recent_posts s) \<Longrightarrow>
   crosspost b w p sub s = (None, logging INFO (Already_posted (title p) (sub_name sub)) s)"
  by (simp add: crosspost_def)

lemma except_forward_frame:
  "recent_posts (snd (except_forward r)) = recent_posts (snd r)"
  "requests (snd (except_forward r)) = requests (snd r)"
  "clock_reads (snd (except_forward r)) = clock_reads (snd r)"
  "slept (snd (except_forward r)) = slept (snd r)"
  by (auto simp: except_forward_def logging_def split: prod.splits option.splits exn.splits)

lemma try_forward_frame:
  "recent_posts (snd (try_forward b w p sub c s)) = recent_posts s"
  "clock_reads (snd (try_forward b w p sub c s)) = clock_reads s"
  "slept (snd (try_forward b w p sub c s)) = slept s"
  by (auto simp: try_forward_def logging_def submit_def add_comment_def Let_def
      split: prod.splits option.splits sum.splits)

lemma try_forward_requests:
  "requests (snd (try_forward b w p sub c s)) =
     requests s @
       (if \<not> should_post b then []
        else if reddit w (length (requests s)) = None
          then [Submit (sub_name sub) (title p) (url p), Add_comment (length (requests s)) c]
          else [Submit (sub_name sub) (title p) (url p)])"
  by (auto simp: try_forward_def logging_def submit_def add_comment_def Let_def
      split: prod.splits option.splits sum.splits)

lemma crosspost_recent_posts:
  "recent_posts (snd (crosspost b w p sub s)) =
     (if (url p, sub_name sub) \<in> set (recent_posts s) then recent_posts s
      else deque_append (recent_posts s) (url p, sub_name sub))"
  by (simp add: crosspost_def Let_def except_forward_frame try_forward_frame logging_def)

lemma crosspost_clock_reads: "clock_reads (snd (crosspost b w p sub s)) = clock_reads s"
  by (simp add: crosspost_def Let_def except_forward_frame try_forward_frame logging_def)

lemma crosspost_requests:
  "requests (snd (crosspost b w p sub s)) =
     requests s @
       (if (url p, sub_name sub) \<in> set (recent_posts s) \<or> \<not> should_post b then []
        else if reddit w (length (requests s)) = None
          then [Submit (sub_name sub) (title p) (url p), Add_comment (length (requests s)) (comment p)]
          else [Submit (sub_name sub) (title p) (url p)])"
  by (simp add: crosspost_def Let_def except_forward_frame try_forward_requests logging_def)

lemma for_subreddits_marked_clock:
  "age_verified p \<Longrightarrow> clock_reads (snd (for_subreddits b w subs p s)) = clock_reads s"
proof (induction subs arbitrary: s)
  case Nil
  then show ?case by simp
next
  case (Cons sub subs)
  show ?case
  proof (cases "sub_check sub p")
    case False
    then show ?thesis using Cons by simp
  next
    case True
    obtain r s' where c: "crosspost b w p sub s = (r, s')" by (cases "crosspost b w p sub s")
    then have k: "clock_reads s' = clock_reads s"
      using crosspost_clock_reads [of b w p sub s] by simp
    show ?thesis
      using True Cons c k by (cases r) (simp_all add: verify_age_def)
  qed
qed


section \<open>The age gate\<close>

lemma verify_age_marked: "age_verified p \<Longrightarrow> verify_age w p s = (True, p, s)"
  by (simp add: verify_age_def)

lemma verify_age_unmarked:
  "\<not> age_verified p \<Longrightarrow>
   verify_age w p s =
     (if timedelta_days (utcnow w (clock_reads s) - created_utc (author p)) > 2
      then (True, p\<lparr>age_verified := True\<rparr>, s\<lparr>clock_reads := clock_reads s + 1\<rparr>)
      else (False, p, s\<lparr>clock_reads := clock_reads s + 1\<rparr>))"
  by (simp add: verify_age_def read_clock_def Let_def)

lemma verify_age_fails:
  "\<not> fst (verify_age w p s) \<Longrightarrow>
   \<not> age_verified p \<and> verify_age w p s = (False, p, s\<lparr>clock_reads := clock_reads s + 1\<rparr>)"
  by (cases "age_verified p") (auto simp: verify_age_marked verify_age_unmarked split: if_splits)

lemma for_subreddits_append:
  "\<forall>x \<in> set pre. \<not> sub_check x p \<Longrightarrow>
   for_subreddits b w (pre @ subs) p s = for_subreddits b w subs p s"
  by (induction pre) simp_all

lemma for_subreddits_gate_fails:
  assumes "\<not> fst (verify_age w p s)"
  shows "for_subreddits b w subs p s =
     (None, if \<exists>x \<in> set subs. sub_check x p then s\<lparr>clock_reads := clock_reads s + 1\<rparr> else s)"
  using verify_age_fails [OF assms] by (induction subs) simp_all

lemma for_subreddits_clock:
  "clock_reads (snd (for_subreddits b w subs p s)) \<le> clock_reads s + 1"
proof (cases "age_verified p")
  case True
  then show ?thesis by (simp add: for_subreddits_marked_clock)
next
  case False
  show ?thesis
  proof (induction subs)
    case Nil
    then show ?case by simp
  next
    case (Cons sub subs)
    show ?case
    proof (cases "sub_check sub p")
      case no: False
      then show ?thesis using Cons by simp
    next
      case yes: True
      let ?age = "timedelta_days (utcnow w (clock_reads s) - created_utc (author p))"
      let ?s1 = "s\<lparr>clock_reads := clock_reads s + 1\<rparr>"
      let ?p1 = "p\<lparr>age_verified := True\<rparr>"
      show ?thesis
      proof (cases "?age > 2")
        case low: False
        then show ?thesis using yes False by (simp add: verify_age_unmarked)
      next
        case high: True
        obtain r s' where c: "crosspost b w ?p1 sub ?s1 = (r, s')"
          by (cases "crosspost b w ?p1 sub ?s1")
        then have k: "clock_reads s' = clock_reads s + 1"
          using crosspost_clock_reads [of b w ?p1 sub ?s1] by simp
        have m: "clock_reads (snd (for_subreddits b w subs ?p1 s')) = clock_reads s'"
          by (simp add: for_subreddits_marked_clock)
        show ?thesis
          using yes False high c k m by (cases r) (simp_all add: verify_age_unmarked)
      qed
    qed
  qed
qed

text \<open>
  C5. The gate is \<open>age > 2\<close> on whole days. An item as the stream delivers it (without
  the mark) whose author's account is 2 days old at the reading of the clock fails
  \<open>verify_age\<close>, and \<open>_do_post\<close> returns normally having made no request and added
  nothing to the deque; at 3 days \<open>verify_age\<close> returns true.
\<close>

theorem age_gate_boundary:
  "(\<not> age_verified p \<and>
    timedelta_days (utcnow w (clock_reads s) - created_utc (author p)) = 2 \<longrightarrow>
      fst (verify_age w p s) = False \<and>
      fst (do_post st b w p s) = None \<and>
      requests (snd (do_post st b w p s)) = requests s \<and>
      recent_posts (snd (do_post st b w p s)) = recent_posts s) \<and>
   (timedelta_days (utcnow w (clock_reads s) - created_utc (author p)) = 3 \<longrightarrow>
      fst (verify_age w p s) = True)"
proof (intro conjI impI)
  assume a: "\<not> age_verified p \<and>
    timedelta_days (utcnow w (clock_reads s) - created_utc (author p)) = 2"
  then show f: "fst (verify_age w p s) = False"
    by (simp add: verify_age_unmarked)
  then have g: "\<not> fst (verify_age w p s)" by simp
  show "fst (do_post st b w p s) = None"
    by (simp add: do_post_def for_subreddits_gate_fails [OF g])
  show "requests (snd (do_post st b w p s)) = requests s"
    by (simp add: do_post_def for_subreddits_gate_fails [OF g])
  show "recent_posts (snd (do_post st b w p s)) = recent_posts s"
    by (simp add: do_post_def for_subreddits_gate_fails [OF g])
next
  assume "timedelta_days (utcnow w (clock_reads s) - created_utc (author p)) = 3"
  then show "fst (verify_age w p s) = True"
    by (cases "age_verified p") (simp_all add: verify_age_marked verify_age_unmarked)
qed

theorem age_gate_boundary_witness:
  "\<not> age_verified demo_post \<and>
   timedelta_days (utcnow (demo_env 172800000000 None) (clock_reads init_state)
                   - created_utc (author demo_post)) = 2 \<and>
   fst (verify_age (demo_env 172800000000 None) demo_post init_state) = False \<and>
   fst (do_post demo_settings demo_bot (demo_env 172800000000 None) demo_post init_state) = None \<and>
   requests (snd (do_post demo_settings demo_bot (demo_env 172800000000 None) demo_post init_state))
     = requests init_state \<and>
   timedelta_days (utcnow (demo_env 259200000000 None) (clock_reads init_state)
                   - created_utc (author demo_post)) = 3 \<and>
   fst (verify_age (demo_env 259200000000 None) demo_post init_state) = True"
proof -
  have 1: "\<not> age_verified demo_post \<and>
     timedelta_days (utcnow (demo_env 172800000000 None) (clock_reads init_state)
                     - created_utc (author demo_post)) = 2"
    by (simp add: demo_post_def demo_env_def init_state_def timedelta_days_def)
  have 2: "timedelta_days (utcnow (demo_env 259200000000 None) (clock_reads init_state)
                     - created_utc (author demo_post)) = 3"
    by (simp add: demo_post_def demo_env_def init_state_def timedelta_days_def)
  show ?thesis
    using 1 2
      age_gate_boundary [of demo_post "demo_env 172800000000 None" init_state demo_settings demo_bot]
      age_gate_boundary [of demo_post "demo_env 259200000000 None" init_state demo_settings demo_bot]
    by blast
qed

text \<open>
  C6. When \<open>verify_age\<close> fails at the first destination that accepts the item, the loop
  over the destinations ends there: whatever destinations remain, the pass returns with
  only the clock read once. When \<open>verify_age\<close> passes, the post it returns carries the
  mark, and on a marked post \<open>verify_age\<close> returns true without reading the clock,
  whatever the clock would say. So a pass reads the clock at most once.
\<close>

theorem age_gate_ends_or_marks_the_pass:
  "(\<not> fst (verify_age w p s) \<and> (\<forall>x \<in> set pre. \<not> sub_check x p) \<and> sub_check sub p \<longrightarrow>
      for_subreddits b w (pre @ sub # rest) p s = (None, s\<lparr>clock_reads := clock_reads s + 1\<rparr>)) \<and>
   (fst (verify_age w p s) \<longrightarrow>
      age_verified (fst (snd (verify_age w p s))) \<and>
      (\<forall>w' s'. verify_age w' (fst (snd (verify_age w p s))) s' =
                 (True, fst (snd (verify_age w p s)), s'))) \<and>
   clock_reads (snd (for_subreddits b w subs p s)) \<le> clock_reads s + 1"
proof (intro conjI impI)
  assume a: "\<not> fst (verify_age w p s) \<and> (\<forall>x \<in> set pre. \<not> sub_check x p) \<and> sub_check sub p"
  then have g: "\<not> fst (verify_age w p s)" by simp
  from a show "for_subreddits b w (pre @ sub # rest) p s =
      (None, s\<lparr>clock_reads := clock_reads s + 1\<rparr>)"
    by (simp add: for_subreddits_append for_subreddits_gate_fails [OF g])
next
  assume v: "fst (verify_age w p s)"
  then show m: "age_verified (fst (snd (verify_age w p s)))"
    by (cases "age_verified p") (auto simp: verify_age_marked verify_age_unmarked split: if_splits)
  then show "\<forall>w' s'. verify_age w' (fst (snd (verify_age w p s))) s' =
                 (True, fst (snd (verify_age w p s)), s')"
    by (simp add: verify_age_marked)
next
  show "clock_reads (snd (for_subreddits b w subs p s)) \<le> clock_reads s + 1"
    by (rule for_subreddits_clock)
qed

theorem age_gate_ends_or_marks_the_pass_witness:
  "\<not> fst (verify_age (demo_env 172800000000 None) demo_post init_state) \<and>
   \<not> sub_check picky_sub demo_post \<and> sub_check (demo_sub ''ImagesOfCats'') demo_post \<and>
   for_subreddits demo_bot (demo_env 172800000000 None)
     ([picky_sub] @ demo_sub ''ImagesOfCats'' # [demo_sub ''ImagesOfPets'']) demo_post init_state
     = (None, init_state\<lparr>clock_reads := clock_reads init_state + 1\<rparr>) \<and>
   fst (verify_age (demo_env 259200000000 None) demo_post init_state) \<and>
   verify_age (demo_env 0 None)
     (fst (snd (verify_age (demo_env 259200000000 None) demo_post init_state))) init_state
     = (True, fst (snd (verify_age (demo_env 259200000000 None) demo_post init_state)), init_state)"
proof -
  have 1: "\<not> fst (verify_age (demo_env 172800000000 None) demo_post init_state)"
    by (simp add: verify_age_def read_clock_def demo_post_def demo_env_def init_state_def
        timedelta_days_def)
  have 2: "(\<forall>x \<in> set [picky_sub]. \<not> sub_check x demo_post) \<and>
           sub_check (demo_sub ''ImagesOfCats'') demo_post"
    by (simp add: picky_sub_def demo_sub_def)
  have 3: "fst (verify_age (demo_env 259200000000 None) demo_post init_state)"
    by (simp add: verify_age_def read_clock_def demo_post_def demo_env_def init_state_def
        timedelta_days_def)
  show ?thesis
    using 1 2 3
      age_gate_ends_or_marks_the_pass
        [of "demo_env 172800000000 None" demo_post init_state "[picky_sub]"
            "demo_sub ''ImagesOfCats''" demo_bot "[demo_sub ''ImagesOfPets'']" "[]"]
      age_gate_ends_or_marks_the_pass
        [of "demo_env 259200000000 None" demo_post init_state "[]"
            "demo_sub ''ImagesOfCats''" demo_bot "[]" "[]"]
    by simp
qed

section \<open>The recency deque\<close>

lemma deque_append_cases:
  "deque_append d x = (if length d < maxlen then d @ [x] else tl d @ [x])"
  by (cases d) (auto simp: deque_append_def maxlen_def Let_def)

lemma deque_append_drop:
  assumes "length d \<le> maxlen"
  shows "deque_append d x = drop (length d + 1 - maxlen) (d @ [x])"
proof (cases "length d < maxlen")
  case True
  then show ?thesis by (simp add: deque_append_def)
next
  case False
  with assms have "length d + 1 - maxlen = Suc 0" by simp
  moreover have "deque_append d x = tl (d @ [x])"
    using False by (simp add: deque_append_def)
  ultimately show ?thesis by (simp only: drop_Suc drop0)
qed

lemma length_deque_append: "length d \<le> maxlen \<Longrightarrow> length (deque_append d x) \<le> maxlen"
  by (auto simp: deque_append_def Let_def)

lemma set_deque_append: "set (deque_append d x) \<subseteq> insert x (set d)"
  by (cases d) (auto simp: deque_append_def Let_def dest: list.set_sel(2))

lemma last_deque_append: "x \<in> set (deque_append d x)"
  by (cases d) (auto simp: deque_append_def maxlen_def Let_def)

lemma foldl_deque_append:
  "length d \<le> maxlen \<Longrightarrow>
   foldl deque_append d xs = drop (length d + length xs - maxlen) (d @ xs)"
proof (induction xs arbitrary: d)
  case Nil
  then show ?case by simp
next
  case (Cons x xs)
  let ?k = "length d + 1 - maxlen"
  have d': "deque_append d x = drop ?k (d @ [x])"
    using Cons.prems by (rule deque_append_drop)
  have len: "length (deque_append d x) = length d + 1 - ?k"
    by (simp add: d')
  have "foldl deque_append d (x # xs) = foldl deque_append (deque_append d x) xs"
    by simp
  also have "\<dots> = drop (length (deque_append d x) + length xs - maxlen) (deque_append d x @ xs)"
    using Cons.prems by (intro Cons.IH length_deque_append)
  also have "deque_append d x @ xs = drop ?k (d @ x # xs)"
    using Cons.prems by (simp add: d' maxlen_def)
  also have "drop (length (deque_append d x) + length xs - maxlen) (drop ?k (d @ x # xs))
      = drop (length d + length (x # xs) - maxlen) (d @ x # xs)"
    using Cons.prems unfolding len drop_drop by (intro arg_cong2 [where f = drop]) auto
  finally show ?case .
qed

lemma crossposts_inserts:
  "distinct (map log_entry cs) \<Longrightarrow> set (map log_entry cs) \<inter> set (recent_posts s) = {} \<Longrightarrow>
   recent_posts (crossposts b w cs s) = foldl deque_append (recent_posts s) (map log_entry cs)"
proof (induction cs arbitrary: s)
  case Nil
  then show ?case by simp
next
  case (Cons c cs)
  let ?s1 = "snd (crosspost b w (fst c) (snd c) s)"
  have new: "log_entry c \<notin> set (recent_posts s)"
    using Cons.prems(2) by auto
  then have r1: "recent_posts ?s1 = deque_append (recent_posts s) (log_entry c)"
    by (simp add: crosspost_recent_posts log_entry_def)
  have sub: "set (recent_posts ?s1) \<subseteq> insert (log_entry c) (set (recent_posts s))"
    unfolding r1 by (rule set_deque_append)
  have "log_entry c \<notin> set (map log_entry cs)"
    using Cons.prems(1) by simp
  moreover have "set (map log_entry cs) \<inter> set (recent_posts s) = {}"
    using Cons.prems(2) by simp
  ultimately have "set (map log_entry cs) \<inter> insert (log_entry c) (set (recent_posts s)) = {}"
    by blast
  with sub have "set (map log_entry cs) \<inter> set (recent_posts ?s1) = {}"
    by blast
  moreover have "distinct (map log_entry cs)"
    using Cons.prems(1) by simp
  ultimately show ?case
    using Cons.IH [of ?s1] r1 by simp
qed

lemma forwards_crosspost:
  "forwards k (snd (crosspost b w p sub s)) =
     forwards k s +
       (if k = (url p, sub_name sub) \<and> k \<notin> set (recent_posts s) \<and> should_post b then 1 else 0)"
  by (auto simp: forwards_def crosspost_requests)

lemma stays_cached_no_forward:
  "stays_cached b w k cs s \<Longrightarrow> forwards k (crossposts b w cs s) = forwards k s"
  by (induction cs arbitrary: s) (auto simp: forwards_crosspost)

lemma try_forward_dry_run:
  "\<not> should_post b \<Longrightarrow>
   try_forward b w p sub c s =
     (None, s\<lparr>records := records s @ [(INFO, X_Posting (sub_name sub) (title p)),
                                          (DEBUG, Commenting c)]\<rparr>)"
  by (simp add: try_forward_def logging_def)

lemma try_forward_submit_raises:
  "should_post b \<Longrightarrow> reddit w (length (requests s)) = Some e \<Longrightarrow>
   try_forward b w p sub c s =
     (Some e, s\<lparr>records := records s @ [(INFO, X_Posting (sub_name sub) (title p))],
                requests := requests s @ [Submit (sub_name sub) (title p) (url p)]\<rparr>)"
  by (simp add: try_forward_def logging_def submit_def)

lemma try_forward_submitted:
  "should_post b \<Longrightarrow> reddit w (length (requests s)) = None \<Longrightarrow>
   try_forward b w p sub c s =
     (reddit w (Suc (length (requests s))),
      s\<lparr>records := records s @ [(INFO, X_Posting (sub_name sub) (title p)),
                                 (DEBUG, Commenting c)],
        requests := requests s @ [Submit (sub_name sub) (title p) (url p),
                                  Add_comment (length (requests s)) c]\<rparr>)"
  by (simp add: try_forward_def logging_def submit_def add_comment_def)

lemma try_forward_logs_X_Posting:
  "(INFO, X_Posting (sub_name sub) (title p)) \<in> set (records (snd (try_forward b w p sub c s)))"
proof (cases "should_post b")
  case False
  then show ?thesis by (simp add: try_forward_dry_run)
next
  case True
  then show ?thesis
    by (cases "reddit w (length (requests s))")
       (simp_all add: try_forward_submit_raises try_forward_submitted)
qed

lemma records_except_forward:
  "set (records (snd r)) \<subseteq> set (records (snd (except_forward r)))"
proof (cases r)
  case (Pair raised s)
  show ?thesis
  proof (cases raised)
    case None
    then show ?thesis using Pair by (simp add: except_forward_def)
  next
    case (Some e)
    then show ?thesis using Pair by (cases e) (auto simp: except_forward_def logging_def)
  qed
qed

lemma crosspost_logs_X_Posting:
  assumes "(url p, sub_name sub) \<notin> set (recent_posts s)"
  shows "(INFO, X_Posting (sub_name sub) (title p)) \<in> set (records (snd (crosspost b w p sub s)))"
  using assms try_forward_logs_X_Posting records_except_forward
  by (fastforce simp: crosspost_def Let_def)

lemma crosspost_dry_run:
  assumes "(url p, sub_name sub) \<notin> set (recent_posts s)" and "\<not> should_post b"
  shows "crosspost b w p sub s =
     (None,
      s\<lparr>recent_posts := deque_append (recent_posts s) (url p, sub_name sub),
        records := records s @
          [(DEBUG, Added_to_recent_posts (url p, sub_name sub)
                     (length (deque_append (recent_posts s) (url p, sub_name sub)))),
           (INFO, X_Posting (sub_name sub) (title p)),
           (DEBUG, Commenting (comment p))]\<rparr>)"
  using assms
  by (simp add: crosspost_def Let_def try_forward_dry_run except_forward_def logging_def)

lemma crosspost_submit_raises:
  assumes "(url p, sub_name sub) \<notin> set (recent_posts s)" and "should_post b"
    and "reddit w (length (requests s)) = Some e"
  shows "crosspost b w p sub s =
     except_forward
       (Some e,
        s\<lparr>recent_posts := deque_append (recent_posts s) (url p, sub_name sub),
          records := records s @
            [(DEBUG, Added_to_recent_posts (url p, sub_name sub)
                       (length (deque_append (recent_posts s) (url p, sub_name sub)))),
             (INFO, X_Posting (sub_name sub) (title p))],
          requests := requests s @ [Submit (sub_name sub) (title p) (url p)]\<rparr>)"
  using assms
  by (simp add: crosspost_def Let_def try_forward_submit_raises logging_def)

lemma crosspost_submitted:
  assumes "(url p, sub_name sub) \<notin> set (recent_posts s)" and "should_post b"
    and "reddit w (length (requests s)) = None"
  shows "crosspost b w p sub s =
     except_forward
       (reddit w (Suc (length (requests s))),
        s\<lparr>recent_posts := deque_append (recent_posts s) (url p, sub_name sub),
          records := records s @
            [(DEBUG, Added_to_recent_posts (url p, sub_name sub)
                       (length (deque_append (recent_posts s) (url p, sub_name sub)))),
             (INFO, X_Posting (sub_name sub) (title p)),
             (DEBUG, Commenting (comment p))],
          requests := requests s @ [Submit (sub_name sub) (title p) (url p),
                                    Add_comment (length (requests s)) (comment p)]\<rparr>)"
  using assms
  by (simp add: crosspost_def Let_def try_forward_submitted logging_def)

text \<open>
  C2. A call of \<open>crosspost\<close> made while the pair (url, destination) is in the deque only
  logs that the item was already posted: no request is made and the deque is the same
  list, in the same order. A call made while the pair is absent appends it, dropping the
  oldest entry when the deque already holds 50, and goes on to the forwarding step
  (the record of it is logged, and the submission is the next request unless the bot is
  in a dry run). Hence, over any sequence of calls during which the pair stays in the
  deque, the pair is submitted at most once: by the call that inserted it.
\<close>

theorem crosspost_forwards_once_while_cached:
  "((url p, sub_name sub) \<in> set (recent_posts s) \<longrightarrow>
      crosspost b w p sub s =
        (None, s\<lparr>records := records s @ [(INFO, Already_posted (title p) (sub_name sub))]\<rparr>)) \<and>
   ((url p, sub_name sub) \<notin> set (recent_posts s) \<longrightarrow>
      recent_posts (snd (crosspost b w p sub s)) =
        (if length (recent_posts s) < 50 then recent_posts s @ [(url p, sub_name sub)]
         else tl (recent_posts s) @ [(url p, sub_name sub)]) \<and>
      (INFO, X_Posting (sub_name sub) (title p)) \<in> set (records (snd (crosspost b w p sub s))) \<and>
      (should_post b \<longrightarrow>
         take (Suc (length (requests s))) (requests (snd (crosspost b w p sub s))) =
           requests s @ [Submit (sub_name sub) (title p) (url p)])) \<and>
   (stays_cached b w (url p, sub_name sub) cs (snd (crosspost b w p sub s)) \<longrightarrow>
      forwards (url p, sub_name sub) (crossposts b w cs (snd (crosspost b w p sub s)))
        \<le> forwards (url p, sub_name sub) s + 1)"
proof (intro conjI impI)
  assume "(url p, sub_name sub) \<in> set (recent_posts s)"
  then show "crosspost b w p sub s =
        (None, s\<lparr>records := records s @ [(INFO, Already_posted (title p) (sub_name sub))]\<rparr>)"
    by (simp add: crosspost_cached logging_def)
next
  assume new: "(url p, sub_name sub) \<notin> set (recent_posts s)"
  then show "recent_posts (snd (crosspost b w p sub s)) =
        (if length (recent_posts s) < 50 then recent_posts s @ [(url p, sub_name sub)]
         else tl (recent_posts s) @ [(url p, sub_name sub)])"
    using deque_append_cases [of "recent_posts s" "(url p, sub_name sub)"]
    by (simp add: crosspost_recent_posts maxlen_def)
  from new show "(INFO, X_Posting (sub_name sub) (title p))
      \<in> set (records (snd (crosspost b w p sub s)))"
    by (rule crosspost_logs_X_Posting)
  assume "should_post b"
  with new show "take (Suc (length (requests s))) (requests (snd (crosspost b w p sub s))) =
           requests s @ [Submit (sub_name sub) (title p) (url p)]"
    by (simp add: crosspost_requests)
next
  assume "stays_cached b w (url p, sub_name sub) cs (snd (crosspost b w p sub s))"
  then have "forwards (url p, sub_name sub) (crossposts b w cs (snd (crosspost b w p sub s)))
      = forwards (url p, sub_name sub) (snd (crosspost b w p sub s))"
    by (rule stays_cached_no_forward)
  then show "forwards (url p, sub_name sub) (crossposts b w cs (snd (crosspost b w p sub s)))
        \<le> forwards (url p, sub_name sub) s + 1"
    by (simp add: forwards_crosspost)
qed

theorem crosspost_forwards_once_while_cached_witness:
  "(url demo_post, sub_name demo_cats) \<notin> set (recent_posts init_state) \<and>
   recent_posts (snd (crosspost demo_bot (demo_env 0 None) demo_post demo_cats init_state)) =
     [(url demo_post, sub_name demo_cats)] \<and>
   take (Suc (length (requests init_state)))
      (requests (snd (crosspost demo_bot (demo_env 0 None) demo_post demo_cats init_state))) =
     requests init_state @ [Submit (sub_name demo_cats) (title demo_post) (url demo_post)] \<and>
   (url demo_post, sub_name demo_cats)
     \<in> set (recent_posts (init_state\<lparr>recent_posts := [(url demo_post, sub_name demo_cats)]\<rparr>)) \<and>
   crosspost demo_bot (demo_env 0 None) demo_post demo_cats
       (init_state\<lparr>recent_posts := [(url demo_post, sub_name demo_cats)]\<rparr>) =
     (None, init_state\<lparr>recent_posts := [(url demo_post, sub_name demo_cats)],
                       records := [(INFO, Already_posted (title demo_post) (sub_name demo_cats))]\<rparr>) \<and>
   stays_cached demo_bot (demo_env 0 None) (url demo_post, sub_name demo_cats)
     [(demo_post, demo_cats), (demo_post, demo_cats)]
     (snd (crosspost demo_bot (demo_env 0 None) demo_post demo_cats init_state)) \<and>
   forwards (url demo_post, sub_name demo_cats)
     (crossposts demo_bot (demo_env 0 None) [(demo_post, demo_cats), (demo_post, demo_cats)]
        (snd (crosspost demo_bot (demo_env 0 None) demo_post demo_cats init_state)))
     \<le> forwards (url demo_post, sub_name demo_cats) init_state + 1"
proof -
  have 1: "(url demo_post, sub_name demo_cats) \<notin> set (recent_posts init_state)"
    by (simp add: init_state_def)
  have 2: "should_post demo_bot"
    by (simp add: demo_bot_def)
  have 3: "(url demo_post, sub_name demo_cats)
     \<in> set (recent_posts (init_state\<lparr>recent_posts := [(url demo_post, sub_name demo_cats)]\<rparr>))"
    by simp
  have 4: "stays_cached demo_bot (demo_env 0 None) (url demo_post, sub_name demo_cats)
     [(demo_post, demo_cats), (demo_post, demo_cats)]
     (snd (crosspost demo_bot (demo_env 0 None) demo_post demo_cats init_state))"
    by code_simp
  have 5: "length (recent_posts init_state) < 50" "recent_posts init_state = []"
    "records init_state = []"
    by (simp_all add: init_state_def)
  show ?thesis
    using 1 2 3 4 5
      crosspost_forwards_once_while_cached [of demo_post demo_cats init_state demo_bot "demo_env 0 None"
             "[(demo_post, demo_cats), (demo_post, demo_cats)]"]
      crosspost_forwards_once_while_cached [of demo_post demo_cats "init_state\<lparr>recent_posts := [(url demo_post, sub_name demo_cats)]\<rparr>"
             demo_bot "demo_env 0 None" "[]"]
    by simp
qed

text \<open>
  C3. The deque never holds more than 50 entries, and the oldest goes first: after 51
  calls of \<open>crosspost\<close> whose pairs are distinct and were not in the deque (so each
  is inserted), the deque holds exactly the last 50 pairs, the first pair is gone, and a
  further call with the first pair inserts it again and (unless in a dry run) submits it
  again.
\<close>

theorem oldest_entry_is_evicted:
  assumes "distinct (map log_entry cs)" and "length cs = 51"
    and "length (recent_posts s) \<le> 50"
    and "set (map log_entry cs) \<inter> set (recent_posts s) = {}"
  shows "length (recent_posts (snd (crosspost b w p sub s))) \<le> 50 \<and>
         recent_posts (crossposts b w cs s) = map log_entry (tl cs) \<and>
         length (recent_posts (crossposts b w cs s)) = 50 \<and>
         log_entry (hd cs) \<notin> set (recent_posts (crossposts b w cs s)) \<and>
         recent_posts (snd (crosspost b w (fst (hd cs)) (snd (hd cs)) (crossposts b w cs s)))
           = map log_entry (tl (tl cs)) @ [log_entry (hd cs)] \<and>
         forwards (log_entry (hd cs))
             (snd (crosspost b w (fst (hd cs)) (snd (hd cs)) (crossposts b w cs s)))
           = forwards (log_entry (hd cs)) (crossposts b w cs s) + (if should_post b then 1 else 0)"
proof -
  let ?s' = "crossposts b w cs s"
  obtain c cs' where cs: "cs = c # cs'"
    using assms(2) by (cases cs) auto
  have "recent_posts ?s' = foldl deque_append (recent_posts s) (map log_entry cs)"
    using assms(1,4) by (rule crossposts_inserts)
  also have "\<dots> = drop (length (recent_posts s) + length (map log_entry cs) - maxlen)
                      (recent_posts s @ map log_entry cs)"
    using assms(3) by (intro foldl_deque_append) (simp add: maxlen_def)
  also have "\<dots> = map log_entry (tl cs)"
    using assms(2) by (simp add: maxlen_def cs)
  finally have r: "recent_posts ?s' = map log_entry (tl cs)" .
  have len: "length (recent_posts ?s') = 50"
    using assms(2) by (simp add: r)
  have out: "log_entry (hd cs) \<notin> set (recent_posts ?s')"
    unfolding r using assms(1) by (simp add: cs)
  have k: "log_entry (hd cs) = (url (fst (hd cs)), sub_name (snd (hd cs)))"
    by (simp add: log_entry_def)
  have again: "recent_posts (snd (crosspost b w (fst (hd cs)) (snd (hd cs)) ?s'))
           = map log_entry (tl (tl cs)) @ [log_entry (hd cs)]"
    using out len deque_append_cases [of "recent_posts ?s'" "log_entry (hd cs)"]
    by (simp add: crosspost_recent_posts k [symmetric] maxlen_def r map_tl)
  have fw: "forwards (log_entry (hd cs))
             (snd (crosspost b w (fst (hd cs)) (snd (hd cs)) ?s'))
           = forwards (log_entry (hd cs)) ?s' + (if should_post b then 1 else 0)"
    using out by (simp add: forwards_crosspost k [symmetric])
  have inv: "length (recent_posts (snd (crosspost b w p sub s))) \<le> 50"
    using assms(3) length_deque_append [of "recent_posts s" "(url p, sub_name sub)"]
    by (simp add: crosspost_recent_posts maxlen_def)
  show ?thesis
    using inv r len out again fw by simp
qed

theorem oldest_entry_is_evicted_witness:
  "distinct (map log_entry demo_calls) \<and> length demo_calls = 51 \<and>
   length (recent_posts init_state) \<le> 50 \<and>
   length (recent_posts (snd (crosspost demo_bot (demo_env 0 None) demo_post demo_cats init_state)))
     \<le> 50 \<and>
   recent_posts (crossposts demo_bot (demo_env 0 None) demo_calls init_state)
     = map log_entry (tl demo_calls) \<and>
   log_entry (hd demo_calls)
     \<notin> set (recent_posts (crossposts demo_bot (demo_env 0 None) demo_calls init_state)) \<and>
   forwards (log_entry (hd demo_calls))
       (snd (crosspost demo_bot (demo_env 0 None) (fst (hd demo_calls)) (snd (hd demo_calls))
              (crossposts demo_bot (demo_env 0 None) demo_calls init_state)))
     = forwards (log_entry (hd demo_calls))
         (crossposts demo_bot (demo_env 0 None) demo_calls init_state)
       + (if should_post demo_bot then 1 else 0)"
proof -
  have 1: "distinct (map log_entry demo_calls)" by code_simp
  have 2: "length demo_calls = 51" by code_simp
  have 3: "length (recent_posts init_state) \<le> 50" by (simp add: init_state_def)
  have 4: "set (map log_entry demo_calls) \<inter> set (recent_posts init_state) = {}"
    by (simp add: init_state_def)
  show ?thesis
    using 1 2 3 oldest_entry_is_evicted [OF 1 2 3 4, of demo_bot "demo_env 0 None" demo_post demo_cats] by blast
qed

section \<open>Errors of the platform\<close>

lemma except_forward_simps:
  "except_forward (None, s) = (None, s)"
  "except_forward (Some AlreadySubmitted, s) = (None, logging INFO Already_submitted s)"
  "except_forward (Some APIException, s) =
     (None, logging WARNING (Exception_text APIException) s)"
  "except_forward (Some HTTPException, s) = (Some HTTPException, s)"
  "except_forward (Some ConnectionError, s) = (Some ConnectionError, s)"
  "except_forward (Some (NameError n), s) = (Some (NameError n), s)"
  "except_forward (Some OtherException, s) = (Some OtherException, s)"
  by (simp_all add: except_forward_def)

lemma crosspost_rejected:
  assumes new: "(url p, sub_name sub) \<notin> set (recent_posts s)" and post: "should_post b"
    and at: "reddit w (length (requests s)) = Some e \<or>
             (reddit w (length (requests s)) = None \<and>
              reddit w (Suc (length (requests s))) = Some e)"
    and e: "e = AlreadySubmitted \<or> e = APIException"
  shows "crosspost b w p sub s =
     (None,
      s\<lparr>recent_posts := deque_append (recent_posts s) (url p, sub_name sub),
        records := records s @
          [(DEBUG, Added_to_recent_posts (url p, sub_name sub)
                     (length (deque_append (recent_posts s) (url p, sub_name sub)))),
           (INFO, X_Posting (sub_name sub) (title p))] @
          (if reddit w (length (requests s)) = None then [(DEBUG, Commenting (comment p))] else []) @
          [if e = AlreadySubmitted then (INFO, Already_submitted)
           else (WARNING, Exception_text APIException)],
        requests := requests s @
          Submit (sub_name sub) (title p) (url p) #
          (if reddit w (length (requests s)) = None
           then [Add_comment (length (requests s)) (comment p)] else [])\<rparr>)"
proof (cases "reddit w (length (requests s))")
  case None
  with at have c: "reddit w (Suc (length (requests s))) = Some e" by simp
  show ?thesis
    using e None c
    by (auto simp: crosspost_submitted [OF new post None] except_forward_simps logging_def)
next
  case (Some e')
  with at have "e' = e" by simp
  with Some have r: "reddit w (length (requests s)) = Some e" by simp
  show ?thesis
    using e r
    by (auto simp: crosspost_submit_raises [OF new post r] except_forward_simps logging_def)
qed

text \<open>
  C9. When the submission, or the comment after it, raises \<open>AlreadySubmitted\<close>,
  \<open>crosspost\<close> returns normally having logged at INFO level only: no record from this
  call is a WARNING. When it raises another \<open>APIException\<close>, \<open>crosspost\<close> returns
  normally and the last record is the WARNING with the exception. In both cases the
  pair was submitted exactly once by the call, the loop over the destinations goes on
  with the next one, and after the last destination \<open>run\<close> goes on with the next pull.
\<close>

theorem platform_rejection_is_logged_and_skipped:
  assumes new: "(url p, sub_name sub) \<notin> set (recent_posts s)" and post: "should_post b"
    and at: "reddit w (length (requests s)) = Some e \<or>
             (reddit w (length (requests s)) = None \<and>
              reddit w (Suc (length (requests s))) = Some e)"
    and e: "e = AlreadySubmitted \<or> e = APIException"
  shows "crosspost b w p sub s =
     (None,
      s\<lparr>recent_posts := deque_append (recent_posts s) (url p, sub_name sub),
        records := records s @
          [(DEBUG, Added_to_recent_posts (url p, sub_name sub)
                     (length (deque_append (recent_posts s) (url p, sub_name sub)))),
           (INFO, X_Posting (sub_name sub) (title p))] @
          (if reddit w (length (requests s)) = None then [(DEBUG, Commenting (comment p))] else []) @
          [if e = AlreadySubmitted then (INFO, Already_submitted)
           else (WARNING, Exception_text APIException)],
        requests := requests s @
          Submit (sub_name sub) (title p) (url p) #
          (if reddit w (length (requests s)) = None
           then [Add_comment (length (requests s)) (comment p)] else [])\<rparr>) \<and>
   (e = AlreadySubmitted \<longrightarrow>
      WARNING \<notin> fst ` set (drop (length (records s)) (records (snd (crosspost b w p sub s))))) \<and>
   (e = APIException \<longrightarrow>
      last (records (snd (crosspost b w p sub s))) = (WARNING, Exception_text APIException)) \<and>
   forwards (url p, sub_name sub) (snd (crosspost b w p sub s))
     = forwards (url p, sub_name sub) s + 1 \<and>
   (\<forall>p0 s0. sub_check sub p0 \<and> verify_age w p0 s0 = (True, p, s) \<longrightarrow>
      for_subreddits b w (sub # subs) p0 s0 =
        for_subreddits b w subs p (snd (crosspost b w p sub s))) \<and>
   (\<forall>p0 s0. check st b p0 \<and> subreddits b = [sub] \<and> sub_check sub p0 \<and>
             verify_age w p0 s0 = (True, p, s) \<longrightarrow>
      run st b w (Yield p0 # pls) s0 = run st b w pls (snd (crosspost b w p sub s)))"
proof -
  note r = crosspost_rejected [OF new post at e]
  have 1: "e = AlreadySubmitted \<longrightarrow>
      WARNING \<notin> fst ` set (drop (length (records s)) (records (snd (crosspost b w p sub s))))"
    by (auto simp: r)
  have 2: "e = APIException \<longrightarrow>
      last (records (snd (crosspost b w p sub s))) = (WARNING, Exception_text APIException)"
    by (simp add: r)
  have 3: "forwards (url p, sub_name sub) (snd (crosspost b w p sub s))
     = forwards (url p, sub_name sub) s + 1"
    using new post by (simp add: forwards_crosspost)
  have f: "fst (crosspost b w p sub s) = None"
    by (simp add: r)
  have 4: "\<forall>p0 s0. sub_check sub p0 \<and> verify_age w p0 s0 = (True, p, s) \<longrightarrow>
      for_subreddits b w (sub # subs) p0 s0 =
        for_subreddits b w subs p (snd (crosspost b w p sub s))" for subs
    using f by (cases "crosspost b w p sub s") auto
  have 5: "\<forall>p0 s0. check st b p0 \<and> subreddits b = [sub] \<and> sub_check sub p0 \<and>
             verify_age w p0 s0 = (True, p, s) \<longrightarrow>
      run st b w (Yield p0 # pls) s0 = run st b w pls (snd (crosspost b w p sub s))"
    using f by (cases "crosspost b w p sub s") (auto simp: do_post_def)
  show ?thesis
    using r 1 2 3 4 5 by blast
qed

theorem platform_rejection_is_logged_and_skipped_witness:
  "(url verified_post, sub_name demo_cats) \<notin> set (recent_posts init_state) \<and>
   reddit (demo_env 0 (Some AlreadySubmitted)) (length (requests init_state))
     = Some AlreadySubmitted \<and>
   WARNING \<notin> fst ` set (drop (length (records init_state))
     (records (snd (crosspost demo_bot (demo_env 0 (Some AlreadySubmitted))
                      verified_post demo_cats init_state)))) \<and>
   forwards (url verified_post, sub_name demo_cats)
     (snd (crosspost demo_bot (demo_env 0 (Some AlreadySubmitted))
             verified_post demo_cats init_state))
     = forwards (url verified_post, sub_name demo_cats) init_state + 1 \<and>
   for_subreddits demo_bot (demo_env 0 (Some AlreadySubmitted)) (demo_cats # [demo_pets])
       verified_post init_state =
     for_subreddits demo_bot (demo_env 0 (Some AlreadySubmitted)) [demo_pets] verified_post
       (snd (crosspost demo_bot (demo_env 0 (Some AlreadySubmitted))
               verified_post demo_cats init_state)) \<and>
   reddit (demo_env 0 (Some APIException)) (length (requests init_state))
     = Some APIException \<and>
   last (records (snd (crosspost demo_bot (demo_env 0 (Some APIException))
                         verified_post demo_cats init_state)))
     = (WARNING, Exception_text APIException)"
proof -
  have 1: "(url verified_post, sub_name demo_cats) \<notin> set (recent_posts init_state)"
    by (simp add: init_state_def)
  have 2: "should_post demo_bot"
    by (simp add: demo_bot_def)
  have 3: "reddit (demo_env 0 (Some AlreadySubmitted)) (length (requests init_state))
             = Some AlreadySubmitted \<or>
           (reddit (demo_env 0 (Some AlreadySubmitted)) (length (requests init_state)) = None \<and>
            reddit (demo_env 0 (Some AlreadySubmitted)) (Suc (length (requests init_state)))
              = Some AlreadySubmitted)"
    by (simp add: demo_env_def)
  have 4: "reddit (demo_env 0 (Some APIException)) (length (requests init_state))
             = Some APIException \<or>
           (reddit (demo_env 0 (Some APIException)) (length (requests init_state)) = None \<and>
            reddit (demo_env 0 (Some APIException)) (Suc (length (requests init_state)))
              = Some APIException)"
    by (simp add: demo_env_def)
  have 5: "sub_check demo_cats verified_post \<and>
           verify_age (demo_env 0 (Some AlreadySubmitted)) verified_post init_state
             = (True, verified_post, init_state)"
    by (simp add: demo_cats_def demo_sub_def verified_post_def verify_age_def)
  have 6: "reddit (demo_env 0 (Some AlreadySubmitted)) (length (requests init_state))
             = Some AlreadySubmitted"
          "reddit (demo_env 0 (Some APIException)) (length (requests init_state))
             = Some APIException"
    by (simp_all add: demo_env_def)
  have 7: "AlreadySubmitted = AlreadySubmitted \<or> AlreadySubmitted = APIException"
    by simp
  have 8: "APIException = AlreadySubmitted \<or> APIException = APIException"
    by simp
  show ?thesis
    using 1 5 6
      platform_rejection_is_logged_and_skipped [OF 1 2 3 7, where subs = "[demo_pets]" and st = demo_settings and pls = "[]"]
      platform_rejection_is_logged_and_skipped [OF 1 2 4 8, where subs = "[]" and st = demo_settings and pls = "[]"]
    by blast
qed

text \<open>
  C10. The pair is appended to the deque before the submission is attempted: whatever
  the request does, the pair is in the deque when \<open>crosspost\<close> is left, also when the
  submission raises an exception that leaves \<open>crosspost\<close> (\<open>HTTPException\<close>) or one
  that is caught (\<open>APIException\<close>). A second call for the pair makes no request, and no
  sequence of calls during which the pair stays in the deque submits it again.
\<close>

theorem entry_is_cached_before_the_attempt:
  assumes new: "(url p, sub_name sub) \<notin> set (recent_posts s)"
  shows "recent_posts (snd (crosspost b w p sub s))
           = deque_append (recent_posts s) (url p, sub_name sub) \<and>
   (url p, sub_name sub) \<in> set (recent_posts (snd (crosspost b w p sub s))) \<and>
   (should_post b \<and> reddit w (length (requests s)) = Some HTTPException \<longrightarrow>
      crosspost b w p sub s =
        (Some HTTPException,
         s\<lparr>recent_posts := deque_append (recent_posts s) (url p, sub_name sub),
           records := records s @
             [(DEBUG, Added_to_recent_posts (url p, sub_name sub)
                        (length (deque_append (recent_posts s) (url p, sub_name sub)))),
              (INFO, X_Posting (sub_name sub) (title p))],
           requests := requests s @ [Submit (sub_name sub) (title p) (url p)]\<rparr>)) \<and>
   (should_post b \<and> reddit w (length (requests s)) = Some APIException \<longrightarrow>
      crosspost b w p sub s =
        (None,
         s\<lparr>recent_posts := deque_append (recent_posts s) (url p, sub_name sub),
           records := records s @
             [(DEBUG, Added_to_recent_posts (url p, sub_name sub)
                        (length (deque_append (recent_posts s) (url p, sub_name sub)))),
              (INFO, X_Posting (sub_name sub) (title p)),
              (WARNING, Exception_text APIException)],
           requests := requests s @ [Submit (sub_name sub) (title p) (url p)]\<rparr>)) \<and>
   requests (snd (crosspost b' w' p sub (snd (crosspost b w p sub s))))
     = requests (snd (crosspost b w p sub s)) \<and>
   (stays_cached b' w' (url p, sub_name sub) cs (snd (crosspost b w p sub s)) \<longrightarrow>
      forwards (url p, sub_name sub) (crossposts b' w' cs (snd (crosspost b w p sub s)))
        = forwards (url p, sub_name sub) (snd (crosspost b w p sub s)))"
proof -
  let ?s' = "snd (crosspost b w p sub s)"
  have 1: "recent_posts ?s' = deque_append (recent_posts s) (url p, sub_name sub)"
    using new by (simp add: crosspost_recent_posts)
  have 2: "(url p, sub_name sub) \<in> set (recent_posts ?s')"
    unfolding 1 by (rule last_deque_append)
  have 3: "should_post b \<and> reddit w (length (requests s)) = Some HTTPException \<longrightarrow>
      crosspost b w p sub s =
        (Some HTTPException,
         s\<lparr>recent_posts := deque_append (recent_posts s) (url p, sub_name sub),
           records := records s @
             [(DEBUG, Added_to_recent_posts (url p, sub_name sub)
                        (length (deque_append (recent_posts s) (url p, sub_name sub)))),
              (INFO, X_Posting (sub_name sub) (title p))],
           requests := requests s @ [Submit (sub_name sub) (title p) (url p)]\<rparr>)"
    using new by (simp add: crosspost_submit_raises except_forward_simps)
  have 4: "should_post b \<and> reddit w (length (requests s)) = Some APIException \<longrightarrow>
      crosspost b w p sub s =
        (None,
         s\<lparr>recent_posts := deque_append (recent_posts s) (url p, sub_name sub),
           records := records s @
             [(DEBUG, Added_to_recent_posts (url p, sub_name sub)
                        (length (deque_append (recent_posts s) (url p, sub_name sub)))),
              (INFO, X_Posting (sub_name sub) (title p)),
              (WARNING, Exception_text APIException)],
           requests := requests s @ [Submit (sub_name sub) (title p) (url p)]\<rparr>)"
    using new by (simp add: crosspost_submit_raises except_forward_simps logging_def)
  have 5: "requests (snd (crosspost b' w' p sub ?s')) = requests ?s'"
    using 2 by (simp add: crosspost_cached logging_def)
  have 6: "stays_cached b' w' (url p, sub_name sub) cs ?s' \<longrightarrow>
      forwards (url p, sub_name sub) (crossposts b' w' cs ?s')
        = forwards (url p, sub_name sub) ?s'"
    by (simp add: stays_cached_no_forward)
  show ?thesis
    using 1 2 3 4 5 6 by blast
qed

theorem entry_is_cached_before_the_attempt_witness:
  "(url demo_post, sub_name demo_cats) \<notin> set (recent_posts init_state) \<and>
   (url demo_post, sub_name demo_cats)
     \<in> set (recent_posts (snd (crosspost demo_bot (demo_env 0 (Some APIException))
                                  demo_post demo_cats init_state))) \<and>
   reddit (demo_env 0 (Some APIException)) (length (requests init_state)) = Some APIException \<and>
   crosspost demo_bot (demo_env 0 (Some APIException)) demo_post demo_cats init_state =
     (None,
      init_state\<lparr>recent_posts :=
                   deque_append (recent_posts init_state) (url demo_post, sub_name demo_cats),
        records := records init_state @
          [(DEBUG, Added_to_recent_posts (url demo_post, sub_name demo_cats)
                     (length (deque_append (recent_posts init_state)
                                (url demo_post, sub_name demo_cats)))),
           (INFO, X_Posting (sub_name demo_cats) (title demo_post)),
           (WARNING, Exception_text APIException)],
        requests := requests init_state @
          [Submit (sub_name demo_cats) (title demo_post) (url demo_post)]\<rparr>) \<and>
   requests (snd (crosspost demo_bot (demo_env 0 None) demo_post demo_cats
                    (snd (crosspost demo_bot (demo_env 0 (Some APIException))
                            demo_post demo_cats init_state))))
     = requests (snd (crosspost demo_bot (demo_env 0 (Some APIException))
                        demo_post demo_cats init_state)) \<and>
   stays_cached demo_bot (demo_env 0 None) (url demo_post, sub_name demo_cats)
     [(demo_post, demo_cats), (demo_post, demo_pets)]
     (snd (crosspost demo_bot (demo_env 0 (Some APIException)) demo_post demo_cats init_state)) \<and>
   forwards (url demo_post, sub_name demo_cats)
     (crossposts demo_bot (demo_env 0 None) [(demo_post, demo_cats), (demo_post, demo_pets)]
        (snd (crosspost demo_bot (demo_env 0 (Some APIException)) demo_post demo_cats init_state)))
     = forwards (url demo_post, sub_name demo_cats)
         (snd (crosspost demo_bot (demo_env 0 (Some APIException)) demo_post demo_cats init_state))"
proof -
  have 1: "(url demo_post, sub_name demo_cats) \<notin> set (recent_posts init_state)"
    by (simp add: init_state_def)
  have 2: "should_post demo_bot"
    by (simp add: demo_bot_def)
  have 3: "reddit (demo_env 0 (Some APIException)) (length (requests init_state))
             = Some APIException"
    by (simp add: demo_env_def)
  have 4: "stays_cached demo_bot (demo_env 0 None) (url demo_post, sub_name demo_cats)
     [(demo_post, demo_cats), (demo_post, demo_pets)]
     (snd (crosspost demo_bot (demo_env 0 (Some APIException)) demo_post demo_cats init_state))"
    by code_simp
  show ?thesis
    using 1 2 3 4
      entry_is_cached_before_the_attempt [OF 1, where b = demo_bot and w = "demo_env 0 (Some APIException)"
                    and b' = demo_bot and w' = "demo_env 0 None"
                    and cs = "[(demo_post, demo_cats), (demo_post, demo_pets)]"]
    by blast
qed

section \<open>The blacklists\<close>

lemma lower_char_idem: "lower_char (lower_char c) = lower_char c"
proof -
  define n where "n = (of_char c :: nat)"
  show ?thesis
  proof (cases "(65 \<le> n \<and> n \<le> 90) \<or> (192 \<le> n \<and> n \<le> 222 \<and> n \<noteq> 215)")
    case False
    then have "lower_char c = c"
      unfolding lower_char_def Let_def n_def by (simp only: if_False)
    then show ?thesis by simp
  next
    case True
    then have l: "lower_char c = char_of (n + 32)"
      unfolding lower_char_def Let_def n_def by (simp only: if_True)
    from True have "n + 32 < 256" by arith
    then have oc: "(of_char (char_of (n + 32)) :: nat) = n + 32"
      by simp
    from True have "\<not> ((65 \<le> n + 32 \<and> n + 32 \<le> 90) \<or>
                       (192 \<le> n + 32 \<and> n + 32 \<le> 222 \<and> n + 32 \<noteq> 215))"
      by arith
    then have "lower_char (char_of (n + 32)) = char_of (n + 32)"
      unfolding lower_char_def Let_def oc by (simp only: if_False)
    then show ?thesis by (simp only: l)
  qed
qed

lemma lower_idem: "lower (lower s) = lower s"
  by (simp add: lower_def lower_char_idem)

lemma lower_drop: "lower (drop n s) = drop n (lower s)"
  by (simp add: lower_def drop_map)

lemma check_blacklisted_user:
  "lower (name (author p)) \<in> blacklist_users b \<Longrightarrow> \<not> check st b p"
  by (simp add: check_def Let_def)

lemma check_blacklisted_sub:
  "lower (display_name (subreddit p)) \<in> blacklist_subs b \<Longrightarrow> \<not> check st b p"
  by (simp add: check_def Let_def)

lemma read_blacklist_image:
  "read_blacklist content =
     (\<lambda>line. drop 3 (lower (strip line))) ` {line \<in> set (splitlines content). line \<noteq> []}"
  by (auto simp: read_blacklist_def)

lemma read_blacklist_lower: "e \<in> read_blacklist content \<Longrightarrow> lower e = e"
  unfolding read_blacklist_image by (auto simp: lower_drop lower_idem)

text \<open>
  C8. \<open>_read_blacklist\<close> stores, for each line of the page that is not empty, the line
  stripped, lowercased and without its first 3 characters; so every stored entry is its
  own lowercase form. \<open>check\<close> lowercases the author's name and the name of the source
  subreddit before the membership tests, so an item is rejected whenever the name equals
  a stored entry up to case.
\<close>

theorem blacklist_is_case_insensitive:
  "read_blacklist content =
     (\<lambda>line. drop 3 (lower (strip line))) ` {line \<in> set (splitlines content). line \<noteq> []} \<and>
   (\<forall>e \<in> read_blacklist content. lower e = e) \<and>
   (blacklist_users b = read_blacklist content \<and> e \<in> read_blacklist content \<and>
    lower (name (author p)) = lower e \<longrightarrow> \<not> check st b p) \<and>
   (blacklist_subs b = read_blacklist content \<and> e \<in> read_blacklist content \<and>
    lower (display_name (subreddit p)) = lower e \<longrightarrow> \<not> check st b p)"
proof (intro conjI ballI impI)
  show "read_blacklist content =
     (\<lambda>line. drop 3 (lower (strip line))) ` {line \<in> set (splitlines content). line \<noteq> []}"
    by (rule read_blacklist_image)
next
  fix x assume "x \<in> read_blacklist content"
  then show "lower x = x" by (rule read_blacklist_lower)
next
  assume a: "blacklist_users b = read_blacklist content \<and> e \<in> read_blacklist content \<and>
    lower (name (author p)) = lower e"
  then have "lower e = e" by (intro read_blacklist_lower [of e content]) simp
  with a have "lower (name (author p)) \<in> blacklist_users b" by simp
  then show "\<not> check st b p" by (rule check_blacklisted_user)
next
  assume a: "blacklist_subs b = read_blacklist content \<and> e \<in> read_blacklist content \<and>
    lower (display_name (subreddit p)) = lower e"
  then have "lower e = e" by (intro read_blacklist_lower [of e content]) simp
  with a have "lower (display_name (subreddit p)) \<in> blacklist_subs b" by simp
  then show "\<not> check st b p" by (rule check_blacklisted_sub)
qed

theorem blacklist_is_case_insensitive_witness:
  "''foo'' \<in> read_blacklist ''/u/foo'' \<and>
   lower (name (author demo_post)) = lower ''foo'' \<and>
   \<not> check demo_settings (demo_bot\<lparr>blacklist_users := read_blacklist ''/u/foo''\<rparr>) demo_post \<and>
   ''pics'' \<in> read_blacklist ''/r/pics'' \<and>
   lower (display_name (subreddit demo_post)) = lower ''pics'' \<and>
   \<not> check demo_settings (demo_bot\<lparr>blacklist_subs := read_blacklist ''/r/pics''\<rparr>) demo_post"
proof -
  have 1: "''foo'' \<in> read_blacklist ''/u/foo''" by code_simp
  have 2: "lower (name (author demo_post)) = lower ''foo''" by code_simp
  have 3: "''pics'' \<in> read_blacklist ''/r/pics''" by code_simp
  have 4: "lower (display_name (subreddit demo_post)) = lower ''pics''" by code_simp
  have 5: "blacklist_users (demo_bot\<lparr>blacklist_users := read_blacklist ''/u/foo''\<rparr>)
             = read_blacklist ''/u/foo''"
    by simp
  have 6: "blacklist_subs (demo_bot\<lparr>blacklist_subs := read_blacklist ''/r/pics''\<rparr>)
             = read_blacklist ''/r/pics''"
    by simp
  show ?thesis
    using 1 2 3 4 5 6
      blacklist_is_case_insensitive [of "''/u/foo''" "demo_bot\<lparr>blacklist_users := read_blacklist ''/u/foo''\<rparr>"
             "''foo''" demo_post demo_settings]
      blacklist_is_case_insensitive [of "''/r/pics''" "demo_bot\<lparr>blacklist_subs := read_blacklist ''/r/pics''\<rparr>"
             "''pics''" demo_post demo_settings]
    by blast
qed

end
